theory Spec2Isabelle
  imports Main "HOL-Library.Sublist" "HOL-Library.Multiset"
begin

section \<open>Data model of constraintPropagation.ts\<close>

text \<open>
  \<^verbatim>\<open>type Variable = string\<close>. An arc is an ordered pair of variables with a binary
  predicate on values of the generic type \<open>T\<close> (here \<open>'a\<close>).
\<close>

type_synonym Variable = string

record 'a Arc =
  relation :: "Variable \<times> Variable"
  constraint :: "'a \<Rightarrow> 'a \<Rightarrow> bool"

text \<open>
  \<^verbatim>\<open>domains: Map<Variable, T[]>\<close> maps a variable to a JavaScript array, which is an
  object reference: two keys may hold the same array, and \<open>pruneDomain\<close> mutates the
  array in place. The map therefore yields a reference, and the arrays live in a store
  from references to their contents. The algorithm calls no mutator on the map, on
  \<open>variables\<close> or on \<open>arcs\<close>, so the CSP record is read and only the store is
  threaded through the operations. The record holds \<open>variables\<close> and \<open>arcs\<close> as
  values of their own: a caller that enters one of these two arrays as a domain as well
  is outside the model, and no theorem below speaks of their contents after a call.
\<close>

type_synonym ref = nat

record 'a CSP =
  variables :: "Variable list"
  domains :: "Variable \<rightharpoonup> ref"
  arcs :: "'a Arc list"

type_synonym 'a store = "ref \<Rightarrow> 'a list"

text \<open>
  \<open>csp.domains.get(v)\<close> is \<open>undefined\<close> for a missing key; calling \<open>forEach\<close>,
  \<open>find\<close> or reading \<open>length\<close> on it throws a TypeError.
\<close>

datatype error = TypeError

text \<open>The contents of the array a variable is mapped to, when it has an entry.\<close>

definition domain_of :: "'a CSP \<Rightarrow> 'a store \<Rightarrow> Variable \<Rightarrow> 'a list option" where
  "domain_of csp h v = map_option h (domains csp v)"

section \<open>makeArcsSymmetric\<close>

text \<open>
  \<open>arcs.forEach\<close> visits the indices below the length the array had when the call
  started and reads \<open>arcs[i]\<close> from the live array, while the callback pushes onto
  that same array.
\<close>

definition makeArcsSymmetric :: "'a Arc list \<Rightarrow> 'a Arc list" where
  "makeArcsSymmetric arcsArg =
    (let arcs = arcsArg in
     fold (\<lambda>i arcs.
             let arc = arcs ! i;
                 (prunedVariable, respectVariable) = relation arc
             in arcs @ [\<lparr>relation = (respectVariable, prunedVariable),
                         constraint = (\<lambda>x y. constraint arc y x)\<rparr>])
          [0..<length arcs] arcs)"

section \<open>arcsWithRespectTo\<close>

text \<open>The filter runs over \<open>csp.arcs\<close>, the arc list of the CSP as the caller built it.\<close>

definition arcsWithRespectTo :: "Variable \<Rightarrow> 'a CSP \<Rightarrow> 'a Arc list" where
  "arcsWithRespectTo variable csp =
    filter (\<lambda>arc. let (_, respectVariable) = relation arc in variable = respectVariable)
           (arcs csp)"

section \<open>pruneDomain\<close>

text \<open>
  The array is emptied and refilled from its copy; the result is the new contents of
  the array \<open>domain\<close>.
\<close>

definition pruneDomain :: "'a list \<Rightarrow> 'a set \<Rightarrow> 'a list" where
  "pruneDomain domain valuesToRemove =
    (let domainCopy = domain in
     fold (\<lambda>val domain. if val \<notin> valuesToRemove then domain @ [val] else domain)
          domainCopy [])"

section \<open>revise\<close>

text \<open>
  \<open>Array.prototype.find\<close> returns the first element for which the callback holds, or
  \<open>undefined\<close>; the source negates that element, not a boolean. \<open>truthy\<close> is
  JavaScript's ToBoolean on the values of \<open>T\<close>, a parameter of the model since \<open>T\<close>
  is generic; \<open>js_not\<close> is \<open>!\<close> applied to the result of \<open>find\<close>, with \<open>None\<close>
  for \<open>undefined\<close>.
\<close>

definition js_not :: "('a \<Rightarrow> bool) \<Rightarrow> 'a option \<Rightarrow> bool" where
  "js_not truthy r = (case r of None \<Rightarrow> True | Some v \<Rightarrow> \<not> truthy v)"

text \<open>ToBoolean on numbers (integers here): only zero is falsy.\<close>

definition truthy_num :: "int \<Rightarrow> bool" where
  "truthy_num n = (n \<noteq> 0)"

text \<open>
  The scan of \<open>prunedDomain.forEach\<close>, with the set \<open>valuesToRemove\<close> and the flag
  \<open>revised\<close> as its state.
\<close>

definition scan :: "('a \<Rightarrow> bool) \<Rightarrow> 'a Arc \<Rightarrow> 'a list \<Rightarrow> 'a list \<Rightarrow> 'a set \<times> bool" where
  "scan truthy arc prunedDomain respectDomain =
    fold (\<lambda>pruneVal (valuesToRemove, revised).
            if js_not truthy (find (\<lambda>respectVal. constraint arc pruneVal respectVal) respectDomain)
            then (insert pruneVal valuesToRemove, True)
            else (valuesToRemove, revised))
         prunedDomain ({}, False)"

text \<open>
  \<open>prunedDomain.forEach\<close> throws when the pruned variable has no entry.
  \<open>respectDomain.find\<close> is reached only inside the callback, so a missing respect
  entry throws only when the pruned domain has an element to visit; with an empty pruned
  domain the call prunes nothing and returns false.
\<close>

definition revise :: "('a \<Rightarrow> bool) \<Rightarrow> 'a Arc \<Rightarrow> 'a CSP \<Rightarrow> 'a store \<Rightarrow> error + (bool \<times> 'a store)" where
  "revise truthy arc csp h =
    (let (prunedVariable, respectVariable) = relation arc in
     case domains csp prunedVariable of
       None \<Rightarrow> Inl TypeError
     | Some pd \<Rightarrow>
        (case domains csp respectVariable of
           None \<Rightarrow>
             if h pd = [] then Inr (False, h(pd := pruneDomain (h pd) {}))
             else Inl TypeError
         | Some rd \<Rightarrow>
             let prunedDomain = h pd;
                 respectDomain = h rd;
                 (valuesToRemove, revised) = scan truthy arc prunedDomain respectDomain
             in Inr (revised, h(pd := pruneDomain prunedDomain valuesToRemove))))"

section \<open>ac3\<close>

text \<open>
  One pass through the body of the \<open>while\<close> loop, after \<open>arcQueue.shift()\<close> has taken
  \<open>arc\<close> off the queue: the loop goes on with a queue and a store, or the function
  returns, or the TypeError of a failed lookup propagates.
\<close>

datatype 'a outcome =
  Continue "'a Arc list" "'a store"
  | Return bool "'a store"
  | Throw error

definition ac3_body :: "('a \<Rightarrow> bool) \<Rightarrow> 'a CSP \<Rightarrow> 'a Arc \<Rightarrow> 'a Arc list \<Rightarrow> 'a store \<Rightarrow> 'a outcome" where
  "ac3_body truthy csp arc arcQueue h =
    (let (prunedVariable, _) = relation arc in
     case revise truthy arc csp h of
       Inl e \<Rightarrow> Throw e
     | Inr (revised, h') \<Rightarrow>
         if revised then
           (case domains csp prunedVariable of
              None \<Rightarrow> Throw TypeError
            | Some pd \<Rightarrow>
                if length (h' pd) = 0 then Return False h'
                else Continue (arcQueue @ arcsWithRespectTo prunedVariable csp) h')
         else Continue arcQueue h')"

text \<open>
  The termination order of the loop: the total length of the arrays that the arcs still
  in play can prune, then the length of the queue.
\<close>

definition pruned_refs :: "'a CSP \<Rightarrow> 'a Arc list \<Rightarrow> ref set" where
  "pruned_refs csp arcQueue =
    (\<lambda>arc. the (domains csp (fst (relation arc)))) ` set (arcQueue @ arcs csp)"

definition total_size :: "'a CSP \<Rightarrow> 'a Arc list \<Rightarrow> 'a store \<Rightarrow> nat" where
  "total_size csp arcQueue h = (\<Sum>r \<in> pruned_refs csp arcQueue. length (h r))"


text \<open>
  The \<open>while\<close> loop over the queue and the store. Its termination is proved below,
  after the facts about the loop body that the proof needs.
\<close>

function ac3_loop :: "('a \<Rightarrow> bool) \<Rightarrow> 'a CSP \<Rightarrow> 'a Arc list \<Rightarrow> 'a store \<Rightarrow> error + (bool \<times> 'a store)" where
  "ac3_loop truthy csp [] h = Inr (True, h)"
| "ac3_loop truthy csp (arc # arcQueue) h =
    (case ac3_body truthy csp arc arcQueue h of
       Continue arcQueue' h' \<Rightarrow> ac3_loop truthy csp arcQueue' h'
     | Return b h' \<Rightarrow> Inr (b, h')
     | Throw e \<Rightarrow> Inl e)"
  by pat_completeness auto

definition ac3 :: "('a \<Rightarrow> bool) \<Rightarrow> 'a CSP \<Rightarrow> 'a store \<Rightarrow> error + (bool \<times> 'a store)" where
  "ac3 truthy csp h =
    (let arcQueue = makeArcsSymmetric (arcs csp) in ac3_loop truthy csp arcQueue h)"

text \<open>
  The queue and the store at the top of the loop after \<open>n\<close> complete passes, when the
  loop is still running then.
\<close>

fun ac3_steps :: "nat \<Rightarrow> ('a \<Rightarrow> bool) \<Rightarrow> 'a CSP \<Rightarrow> 'a Arc list \<Rightarrow> 'a store \<Rightarrow> ('a Arc list \<times> 'a store) option" where
  "ac3_steps 0 truthy csp arcQueue h = Some (arcQueue, h)"
| "ac3_steps (Suc n) truthy csp [] h = None"
| "ac3_steps (Suc n) truthy csp (arc # arcQueue) h =
    (case ac3_body truthy csp arc arcQueue h of
       Continue arcQueue' h' \<Rightarrow> ac3_steps n truthy csp arcQueue' h'
     | Return b h' \<Rightarrow> None
     | Throw e \<Rightarrow> None)"

section \<open>Properties the specification speaks of\<close>

text \<open>
  The invariant of the data model: every variable that an arc of \<open>csp.arcs\<close> refers to has
  an entry in \<open>csp.domains\<close>.
\<close>

definition has_entries :: "'a CSP \<Rightarrow> 'a Arc \<Rightarrow> bool" where
  "has_entries csp arc =
    (domains csp (fst (relation arc)) \<noteq> None \<and> domains csp (snd (relation arc)) \<noteq> None)"

definition wellformed :: "'a CSP \<Rightarrow> bool" where
  "wellformed csp = list_all (has_entries csp) (arcs csp)"

text \<open>
  An arc is consistent in a store when every value of its pruned variable's domain has a
  value of its respect variable's domain that the constraint accepts.
\<close>

definition arc_consistent :: "'a CSP \<Rightarrow> 'a store \<Rightarrow> 'a Arc \<Rightarrow> bool" where
  "arc_consistent csp h arc =
    (case (domain_of csp h (fst (relation arc)), domain_of csp h (snd (relation arc))) of
       (Some prunedDomain, Some respectDomain) \<Rightarrow>
         list_all (\<lambda>a. list_ex (\<lambda>b. constraint arc a b) respectDomain) prunedDomain
     | _ \<Rightarrow> False)"

section \<open>Concrete inputs\<close>

text \<open>
  Three variables: \<open>A\<close> and \<open>B\<close> must be equal, and \<open>C\<close> and \<open>A\<close> must be equal.
  Every value is a non-zero number.
\<close>

definition csp_chain :: "int CSP" where
  "csp_chain =
    \<lparr>variables = [''A'', ''B'', ''C''],
     domains = [''A'' \<mapsto> 0, ''B'' \<mapsto> 1, ''C'' \<mapsto> 2],
     arcs = [\<lparr>relation = (''A'', ''B''), constraint = (\<lambda>x y. x = y)\<rparr>,
             \<lparr>relation = (''C'', ''A''), constraint = (\<lambda>x y. x = y)\<rparr>]\<rparr>"

definition store_chain :: "int store" where
  "store_chain = (\<lambda>_. [])(0 := [1, 2], 1 := [1, 2], 2 := [1])"

text \<open>Two variables with the domain \<open>[0]\<close> each, which must be equal.\<close>

definition arc_zero :: "int Arc" where
  "arc_zero = \<lparr>relation = (''P'', ''R''), constraint = (\<lambda>x y. x = y)\<rparr>"

definition csp_zero :: "int CSP" where
  "csp_zero =
    \<lparr>variables = [''P'', ''R''],
     domains = [''P'' \<mapsto> 0, ''R'' \<mapsto> 1],
     arcs = [arc_zero]\<rparr>"

definition store_zero :: "int store" where
  "store_zero = (\<lambda>_. [])(0 := [0], 1 := [0])"

text \<open>One variable constrained against itself: some value of \<open>A\<close> must exceed it.\<close>

definition arc_self :: "int Arc" where
  "arc_self = \<lparr>relation = (''A'', ''A''), constraint = (\<lambda>x y. x < y)\<rparr>"

definition csp_self :: "int CSP" where
  "csp_self = \<lparr>variables = [''A''], domains = [''A'' \<mapsto> 0], arcs = [arc_self]\<rparr>"

text \<open>
  Two variables whose entries in \<open>domains\<close> are one and the same array, as after
  \<^verbatim>\<open>const d = [1, 2]; domains.set("A", d); domains.set("B", d)\<close>.
\<close>

definition arc_shared :: "int Arc" where
  "arc_shared = \<lparr>relation = (''A'', ''B''), constraint = (\<lambda>x y. x < y)\<rparr>"

definition csp_shared :: "int CSP" where
  "csp_shared =
    \<lparr>variables = [''A'', ''B''],
     domains = [''A'' \<mapsto> 0, ''B'' \<mapsto> 0],
     arcs = [arc_shared]\<rparr>"

definition store_pair :: "int store" where
  "store_pair = (\<lambda>_. [])(0 := [1, 2])"

text \<open>Scenario 1 of the specification: \<open>X < Y\<close> over \<open>[1, 2, 3]\<close>.\<close>

definition arc_less :: "int Arc" where
  "arc_less = \<lparr>relation = (''X'', ''Y''), constraint = (\<lambda>x y. x < y)\<rparr>"

definition csp_less :: "int CSP" where
  "csp_less =
    \<lparr>variables = [''X'', ''Y''],
     domains = [''X'' \<mapsto> 0, ''Y'' \<mapsto> 1],
     arcs = [arc_less]\<rparr>"

definition store_less :: "int store" where
  "store_less = (\<lambda>_. [])(0 := [1, 2, 3], 1 := [1, 2, 3])"




text \<open>No arcs, and a variable whose domain is empty.\<close>

definition csp_no_arcs :: "int CSP" where
  "csp_no_arcs =
    \<lparr>variables = [''A'', ''B''], domains = [''A'' \<mapsto> 0, ''B'' \<mapsto> 1], arcs = []\<rparr>"

definition store_no_arcs :: "int store" where
  "store_no_arcs = (\<lambda>_. [])(0 := [], 1 := [1, 2])"

section \<open>Facts about pruneDomain, revise and the loop body\<close>

lemma fold_push_filter:
  "fold (\<lambda>val d. if val \<notin> vs then d @ [val] else d) xs acc = acc @ filter (\<lambda>v. v \<notin> vs) xs"
  by (induction xs arbitrary: acc) simp_all

lemma pruneDomain_filter: "pruneDomain d vs = filter (\<lambda>v. v \<notin> vs) d"
  by (simp add: pruneDomain_def fold_push_filter)

lemma fold_scan:
  "fold (\<lambda>p (vs, revised). if u p then (insert p vs, True) else (vs, revised)) xs (S, b)
     = (S \<union> {p \<in> set xs. u p}, b \<or> (\<exists>p \<in> set xs. u p))"
  by (induction xs arbitrary: S b) auto

lemma scan_eq:
  "scan truthy arc pd rd =
     ({p \<in> set pd. js_not truthy (find (constraint arc p) rd)},
      \<exists>p \<in> set pd. js_not truthy (find (constraint arc p) rd))"
  unfolding scan_def by (simp add: fold_scan)

text \<open>
  What \<open>revise\<close> computes when both variables have entries: a value stays exactly when
  \<open>find\<close> returns a truthy supporting value for it.
\<close>

lemma revise_both:
  assumes "domains csp (fst (relation arc)) = Some pd" "domains csp (snd (relation arc)) = Some rd"
  shows "revise truthy arc csp h =
     Inr (\<exists>p \<in> set (h pd). js_not truthy (find (constraint arc p) (h rd)),
          h(pd := filter (\<lambda>p. \<not> js_not truthy (find (constraint arc p) (h rd))) (h pd)))"
  using assms
  by (cases "relation arc")
     (auto simp: revise_def scan_eq pruneDomain_filter Let_def intro!: filter_cong)

lemma revise_result:
  assumes "revise truthy arc csp h = Inr (b, h')"
  shows "\<exists>pd K. domains csp (fst (relation arc)) = Some pd \<and> h' = h(pd := filter K (h pd))
            \<and> b = (\<exists>p \<in> set (h pd). \<not> K p)"
proof -
  obtain pd where pd: "domains csp (fst (relation arc)) = Some pd"
    using assms by (auto simp: revise_def split: prod.splits option.splits)
  show ?thesis
  proof (cases "domains csp (snd (relation arc))")
    case None
    with assms pd have "h pd = []" "b = False" "h' = h(pd := pruneDomain (h pd) {})"
      by (auto simp: revise_def split: prod.splits if_splits)
    then have "h' = h(pd := filter (\<lambda>_. True) (h pd)) \<and> b = (\<exists>p \<in> set (h pd). \<not> True)"
      by (simp add: pruneDomain_filter)
    with pd show ?thesis by blast
  next
    case (Some rd)
    from revise_both[OF pd Some, of truthy h] assms
    have "h' = h(pd := filter (\<lambda>p. \<not> js_not truthy (find (constraint arc p) (h rd))) (h pd))"
      and "b = (\<exists>p \<in> set (h pd). \<not> \<not> js_not truthy (find (constraint arc p) (h rd)))"
      by simp_all
    with pd show ?thesis by blast
  qed
qed

lemma filter_length_less: "\<exists>p \<in> set xs. \<not> K p \<Longrightarrow> length (filter K xs) < length xs"
  using length_filter_less[of _ xs K] by blast

lemma filter_all_id: "\<not> (\<exists>p \<in> set xs. \<not> K p) \<Longrightarrow> filter K xs = xs"
  by (induction xs) auto

text \<open>
  A pass that lets the loop go on either changed nothing and left the rest of the queue,
  or strictly shortened the pruned array, left it non-empty, and appended
  \<open>arcsWithRespectTo prunedVariable csp\<close>.
\<close>

lemma body_Continue:
  assumes "ac3_body truthy csp arc q h = Continue q' h'"
  shows "(q' = q \<and> h' = h) \<or>
         (\<exists>pd K. domains csp (fst (relation arc)) = Some pd \<and> h' = h(pd := filter K (h pd))
             \<and> length (h' pd) < length (h pd) \<and> h' pd \<noteq> []
             \<and> q' = q @ arcsWithRespectTo (fst (relation arc)) csp)"
proof -
  from assms obtain b h1 where r: "revise truthy arc csp h = Inr (b, h1)"
    by (auto simp: ac3_body_def split: prod.splits sum.splits)
  from revise_result[OF r] obtain pd K where pd: "domains csp (fst (relation arc)) = Some pd"
    and h1: "h1 = h(pd := filter K (h pd))" and b: "b = (\<exists>p \<in> set (h pd). \<not> K p)" by blast
  show ?thesis
  proof (cases b)
    case True
    with assms r pd have "h' = h1" "h1 pd \<noteq> []" "q' = q @ arcsWithRespectTo (fst (relation arc)) csp"
      by (auto simp: ac3_body_def split: prod.splits if_splits)
    moreover have "length (h1 pd) < length (h pd)"
      using True b h1 by (simp add: filter_length_less)
    ultimately show ?thesis using pd h1 by blast
  next
    case False
    with assms r have "h' = h1" "q' = q"
      by (auto simp: ac3_body_def split: prod.splits if_splits)
    moreover have "h1 = h" using False b h1 by (simp add: filter_all_id)
    ultimately show ?thesis by simp
  qed
qed

lemma body_Return:
  assumes "ac3_body truthy csp arc q h = Return b h'"
  shows "b = False \<and> (\<exists>pd K. domains csp (fst (relation arc)) = Some pd \<and> h' = h(pd := filter K (h pd)))"
proof -
  from assms obtain b1 h1 where r: "revise truthy arc csp h = Inr (b1, h1)"
    by (auto simp: ac3_body_def split: prod.splits sum.splits)
  from assms r have "b = False" "h' = h1"
    by (auto simp: ac3_body_def split: prod.splits if_splits option.splits)
  with revise_result[OF r] show ?thesis by blast
qed

lemma body_no_Throw:
  assumes "has_entries csp arc"
  shows "ac3_body truthy csp arc q h \<noteq> Throw e"
proof -
  from assms obtain pd rd where e: "domains csp (fst (relation arc)) = Some pd"
      "domains csp (snd (relation arc)) = Some rd"
    by (auto simp: has_entries_def)
  show ?thesis
    using e(1) by (cases "relation arc") (simp add: ac3_body_def revise_both[OF e])
qed

section \<open>Termination of the loop\<close>

lemma pruned_refs_finite: "finite (pruned_refs csp q)"
  by (simp add: pruned_refs_def)

lemma arcsWithRespectTo_subset: "set (arcsWithRespectTo v csp) \<subseteq> set (arcs csp)"
  by (auto simp: arcsWithRespectTo_def)

lemma pruned_refs_mono:
  "set q' \<subseteq> set q \<union> set (arcs csp) \<Longrightarrow> pruned_refs csp q' \<subseteq> pruned_refs csp q"
  by (auto simp: pruned_refs_def)

lemma total_size_mono:
  assumes "set q' \<subseteq> set q \<union> set (arcs csp)"
  shows "total_size csp q' h \<le> total_size csp q h"
  unfolding total_size_def
  by (rule sum_mono2[OF pruned_refs_finite pruned_refs_mono[OF assms]]) simp

lemma total_size_shrink:
  assumes "r \<in> pruned_refs csp q" "length (filter K (h r)) < length (h r)"
  shows "total_size csp q (h(r := filter K (h r))) < total_size csp q h"
  unfolding total_size_def
proof (rule sum_strict_mono_ex1[OF pruned_refs_finite])
  show "\<forall>x\<in>pruned_refs csp q. length ((h(r := filter K (h r))) x) \<le> length (h x)"
    by simp
  show "\<exists>a\<in>pruned_refs csp q. length ((h(r := filter K (h r))) a) < length (h a)"
    using assms by auto
qed

text \<open>
  Every pass that lets the loop go on decreases the pair of the total size and the queue
  length in the lexicographic order: an arc is appended only by a pass that shortened an
  array, and a pass that shortened nothing shortens the queue.
\<close>

lemma body_decreases:
  assumes c: "ac3_body truthy csp arc q h = Continue q' h'"
  shows "total_size csp q' h' < total_size csp (arc # q) h
         \<or> (total_size csp q' h' \<le> total_size csp (arc # q) h \<and> length q' < length (arc # q))"
proof -
  from body_Continue[OF c] consider
    (same) "q' = q" "h' = h"
    | (pruned) pd K where "domains csp (fst (relation arc)) = Some pd" "h' = h(pd := filter K (h pd))"
         "length (h' pd) < length (h pd)" "q' = q @ arcsWithRespectTo (fst (relation arc)) csp"
    by blast
  then show ?thesis
  proof cases
    case same
    have "total_size csp q h \<le> total_size csp (arc # q) h"
      by (rule total_size_mono) auto
    with same show ?thesis by simp
  next
    case pruned
    have sub: "set q' \<subseteq> set (arc # q) \<union> set (arcs csp)"
      using pruned(4) arcsWithRespectTo_subset[of "fst (relation arc)" csp] by auto
    have "pd \<in> pruned_refs csp (arc # q)"
      using pruned(1) by (force simp: pruned_refs_def)
    then have "total_size csp (arc # q) h' < total_size csp (arc # q) h"
      using pruned(2,3) total_size_shrink[of pd csp "arc # q" K h] by simp
    with total_size_mono[OF sub, of h'] show ?thesis by simp
  qed
qed

termination ac3_loop
proof (relation "(\<lambda>(truthy, csp, q, h). total_size csp q h) <*mlex*> measure (\<lambda>(truthy, csp, q, h). length q)")
  show "wf ((\<lambda>(truthy, csp, q, h). total_size csp q h) <*mlex*> measure (\<lambda>(truthy, csp, q, h). length q))"
    by (simp add: wf_mlex)
next
  fix truthy :: "'a \<Rightarrow> bool" and csp :: "'a CSP" and arc q h q' h'
  assume "ac3_body truthy csp arc q h = Continue q' h'"
  from body_decreases[OF this]
  show "((truthy, csp, q', h'), (truthy, csp, arc # q, h))
       \<in> (\<lambda>(truthy, csp, q, h). total_size csp q h) <*mlex*> measure (\<lambda>(truthy, csp, q, h). length q)"
    by (auto intro: mlex_less mlex_leq)
qed


section \<open>Facts about makeArcsSymmetric and the whole loop\<close>

lemma fold_reverse_arcs:
  "k \<le> length xs \<Longrightarrow>
   fold (\<lambda>i arcs.
           let arc = arcs ! i;
               (prunedVariable, respectVariable) = relation arc
           in arcs @ [\<lparr>relation = (respectVariable, prunedVariable),
                       constraint = (\<lambda>x y. constraint arc y x)\<rparr>])
        [0..<k] xs
   = xs @ map (\<lambda>arc. \<lparr>relation = (snd (relation arc), fst (relation arc)),
                       constraint = (\<lambda>x y. constraint arc y x)\<rparr>) (take k xs)"
proof (induction k)
  case 0
  show ?case by simp
next
  case (Suc k)
  then have k: "k < length xs" by simp
  then show ?case
    using Suc.IH
    by (simp add: take_Suc_conv_app_nth nth_append case_prod_unfold Let_def)
qed

lemma makeArcsSymmetric_append:
  "makeArcsSymmetric xs =
     xs @ map (\<lambda>arc. \<lparr>relation = (snd (relation arc), fst (relation arc)),
                      constraint = (\<lambda>x y. constraint arc y x)\<rparr>) xs"
  using fold_reverse_arcs[of "length xs" xs] by (simp add: makeArcsSymmetric_def)

lemma symmetric_has_entries:
  assumes "wellformed csp" "arc \<in> set (makeArcsSymmetric (arcs csp))"
  shows "has_entries csp arc"
  using assms by (auto simp: wellformed_def list_all_iff makeArcsSymmetric_append has_entries_def)

lemma initial_queue_has_entries:
  assumes "wellformed csp"
  shows "\<forall>arc \<in> set (makeArcsSymmetric (arcs csp)) \<union> set (arcs csp). has_entries csp arc"
  using assms symmetric_has_entries[OF assms] by (auto simp: wellformed_def list_all_iff)

text \<open>With entries for every arc in play, no lookup fails and the loop returns a boolean.\<close>

lemma loop_returns:
  assumes "\<forall>arc \<in> set q \<union> set (arcs csp). has_entries csp arc"
  shows "\<exists>b h'. ac3_loop truthy csp q h = Inr (b, h')"
  using assms
proof (induction truthy csp q h rule: ac3_loop.induct)
  case (1 truthy csp h)
  show ?case by auto
next
  case (2 truthy csp arc q h)
  have arc: "has_entries csp arc" using "2.prems" by simp
  show ?case
  proof (cases "ac3_body truthy csp arc q h")
    case (Continue q' h')
    from body_Continue[OF Continue] have "set q' \<subseteq> set q \<union> set (arcs csp)"
      using arcsWithRespectTo_subset[of "fst (relation arc)" csp] by auto
    with "2.prems" have "\<forall>arc \<in> set q' \<union> set (arcs csp). has_entries csp arc" by auto
    from "2.IH"[OF Continue this] show ?thesis using Continue by simp
  next
    case (Return b h')
    then show ?thesis by simp
  next
    case (Throw e)
    with body_no_Throw[OF arc] show ?thesis by blast
  qed
qed



lemma subseq_mset_subset: "subseq xs ys \<Longrightarrow> mset xs \<subseteq># mset ys"
  by (induction rule: list_emb.induct) (auto intro: subset_mset.order_trans)

lemma body_Continue_subseq:
  assumes "ac3_body truthy csp arc q h = Continue q' h'"
  shows "subseq (h' r) (h r)"
  using body_Continue[OF assms] by auto

lemma body_Return_subseq:
  assumes "ac3_body truthy csp arc q h = Return b h'"
  shows "subseq (h' r) (h r)"
  using body_Return[OF assms] by auto

lemma steps_subseq:
  "ac3_steps n truthy csp q h0 = Some (q', h) \<Longrightarrow> subseq (h r) (h0 r)"
proof (induction n truthy csp q h0 rule: ac3_steps.induct)
  case (1 truthy csp arcQueue h)
  then show ?case by simp
next
  case (2 n truthy csp h)
  then show ?case by simp
next
  case (3 n truthy csp arc arcQueue h0)
  from "3.prems" obtain q1 h1 where c: "ac3_body truthy csp arc arcQueue h0 = Continue q1 h1"
    and s: "ac3_steps n truthy csp q1 h1 = Some (q', h)"
    by (auto split: outcome.splits)
  from "3.IH"[OF c s] body_Continue_subseq[OF c, of r] show ?case
    by (rule subseq_order.trans)
qed

lemma loop_subseq:
  "ac3_loop truthy csp q h0 = Inr (b, h') \<Longrightarrow> subseq (h' r) (h0 r)"
proof (induction truthy csp q h0 rule: ac3_loop.induct)
  case (1 truthy csp h)
  then show ?case by simp
next
  case (2 truthy csp arc q h0)
  show ?case
  proof (cases "ac3_body truthy csp arc q h0")
    case (Continue q1 h1)
    with "2.prems" have "ac3_loop truthy csp q1 h1 = Inr (b, h')" by simp
    from "2.IH"[OF Continue this] body_Continue_subseq[OF Continue, of r] show ?thesis
      by (rule subseq_order.trans)
  next
    case (Return b1 h1)
    with "2.prems" have "h' = h1" by simp
    with body_Return_subseq[OF Return, of r] show ?thesis by simp
  next
    case (Throw e)
    with "2.prems" show ?thesis by simp
  qed
qed

text \<open>The unfoldings that evaluate the operations on a concrete input.\<close>

lemmas run_defs = ac3_def makeArcsSymmetric_def ac3_body_def revise_def scan_def pruneDomain_def
  arcsWithRespectTo_def js_not_def truthy_num_def Let_def domain_of_def arc_consistent_def
  wellformed_def has_entries_def

section \<open>The claims\<close>

text \<open>
  C1. The claim: on a CSP whose arcs all have domain entries, when \<open>ac3\<close> returns true
  every arc of the symmetrized arc set is consistent. The code does not deliver this.
  On the chain \<open>A = B\<close>, \<open>C = A\<close> with \<open>A = [1, 2]\<close>, \<open>B = [1, 2]\<close>, \<open>C = [1]\<close>
  the synthesized arc \<open>(B, A)\<close> is revised before the synthesized arc \<open>(A, C)\<close> removes
  2 from \<open>A\<close>; the arcs queued again then come from \<open>csp.arcs\<close>, which does not hold
  \<open>(B, A)\<close>. \<open>ac3\<close> returns true with \<open>B = [1, 2]\<close> and \<open>A = [1]\<close>, where the value 2
  of \<open>B\<close> has no partner in \<open>A\<close>.
\<close>

theorem ac3_true_without_arc_consistency:
  "wellformed csp_chain \<and>
   (case ac3 truthy_num csp_chain store_chain of
      Inl e \<Rightarrow> False
    | Inr (b, h') \<Rightarrow>
        b \<and> domain_of csp_chain h' ''A'' = Some [1] \<and> domain_of csp_chain h' ''B'' = Some [1, 2]
        \<and> \<not> list_all (arc_consistent csp_chain h') (makeArcsSymmetric (arcs csp_chain)))"
  by (simp add: run_defs csp_chain_def store_chain_def)

text \<open>
  C2. The claim: when \<open>revise\<close> returns true and the pruned domain is not empty, the arcs
  appended to the queue are those of the symmetrized arc set whose respect variable is the
  pruned variable. The code appends \<open>arcsWithRespectTo prunedVariable csp\<close>, a filter of
  \<open>csp.arcs\<close>. On the chain above, the fourth pass takes the synthesized arc \<open>(A, C)\<close>
  off the queue and prunes \<open>A\<close> to \<open>[1]\<close>; it appends the one arc \<open>(C, A)\<close>, while
  the symmetrized arc set has two arcs with respect variable \<open>A\<close>: \<open>(C, A)\<close> and the
  synthesized \<open>(B, A)\<close>.
\<close>

theorem ac3_requeues_supplied_arcs_only:
  "(case ac3_steps 3 truthy_num csp_chain (makeArcsSymmetric (arcs csp_chain)) store_chain of
      Some (arc # arcQueue, h) \<Rightarrow>
        fst (relation arc) = ''A'' \<and>
        (case revise truthy_num arc csp_chain h of
           Inr (revised, h') \<Rightarrow> revised \<and> domain_of csp_chain h' ''A'' = Some [1]
         | Inl e \<Rightarrow> False) \<and>
        (case ac3_body truthy_num csp_chain arc arcQueue h of
           Continue arcQueue' h' \<Rightarrow>
             map relation (drop (length arcQueue) arcQueue') = [(''C'', ''A'')] \<and>
             map relation (filter (\<lambda>a. snd (relation a) = ''A'')
                                  (makeArcsSymmetric (arcs csp_chain)))
               = [(''C'', ''A''), (''B'', ''A'')]
         | _ \<Rightarrow> False)
    | _ \<Rightarrow> False)"
  by (simp add: run_defs csp_chain_def store_chain_def eval_nat_numeral)

text \<open>
  C3. The claim: after \<open>revise\<close> every remaining value has a partner, every removed value
  had none at call time, and the result is true exactly when a value was removed. The
  second part fails in the code: the test is \<open>!respectDomain.find(...)\<close>, and \<open>find\<close>
  returns the partner itself, so a value whose first partner is falsy (0, the empty
  string, false, null) is removed although it has a partner. With \<open>P = [0]\<close>,
  \<open>R = [0]\<close> and the constraint \<open>x = y\<close>, \<open>revise\<close> returns true and empties \<open>P\<close>,
  while 0 in \<open>R\<close> is a partner of 0.
\<close>

theorem revise_removes_value_with_falsy_partner:
  "(case revise truthy_num arc_zero csp_zero store_zero of
      Inr (revised, h') \<Rightarrow>
        revised \<and> domain_of csp_zero store_zero ''P'' = Some [0]
        \<and> domain_of csp_zero h' ''P'' = Some []
        \<and> list_ex (\<lambda>r. constraint arc_zero 0 r) (store_zero 1)
    | Inl e \<Rightarrow> False)"
  by (simp add: run_defs csp_zero_def arc_zero_def store_zero_def)

text \<open>
  C4. \<open>makeArcsSymmetric\<close> returns a sequence of twice the input's length: the input
  arcs unchanged, followed by one reverse arc for each input arc \<open>(A, B, c)\<close>, in order,
  with relation \<open>(B, A)\<close> and constraint \<open>c'(x, y) = c(y, x)\<close>. The function works on
  the copy made by \<open>slice\<close>; the argument is only read.
\<close>

theorem makeArcsSymmetric_doubles:
  "length (makeArcsSymmetric arcsArg) = 2 * length arcsArg
   \<and> take (length arcsArg) (makeArcsSymmetric arcsArg) = arcsArg
   \<and> drop (length arcsArg) (makeArcsSymmetric arcsArg)
       = map (\<lambda>arc. \<lparr>relation = (snd (relation arc), fst (relation arc)),
                      constraint = (\<lambda>x y. constraint arc y x)\<rparr>) arcsArg"
  using fold_reverse_arcs[of "length arcsArg" arcsArg] by (simp add: makeArcsSymmetric_def)

text \<open>
  C5. The claim: after a run of \<open>ac3\<close> that returned true, a second run changes no
  domain. The code does not deliver this: on the chain above the first run returns true
  and leaves \<open>B = [1, 2]\<close>; the second run starts again from the whole symmetrized arc
  set, revises the synthesized arc \<open>(B, A)\<close> against \<open>A = [1]\<close> and prunes \<open>B\<close> to
  \<open>[1]\<close>.
\<close>

theorem ac3_second_run_prunes:
  "(case ac3 truthy_num csp_chain store_chain of
      Inr (b1, h1) \<Rightarrow>
        b1 \<and>
        (case ac3 truthy_num csp_chain h1 of
           Inr (b2, h2) \<Rightarrow>
             domain_of csp_chain h1 ''B'' = Some [1, 2] \<and> domain_of csp_chain h2 ''B'' = Some [1]
         | Inl e \<Rightarrow> False)
    | Inl e \<Rightarrow> False)"
  by (simp add: run_defs csp_chain_def store_chain_def)



text \<open>
  C7. Throughout a run of \<open>ac3\<close> the domains only shrink: the contents of every array,
  hence the domain of every variable, at the top of the loop after any number of passes,
  and at return whatever the boolean, are a subsequence and so a sub-multiset of the
  array's initial contents. A pass that throws has changed nothing since the top of the
  loop.
\<close>

theorem ac3_domains_only_shrink:
  "(ac3_steps n truthy csp (makeArcsSymmetric (arcs csp)) h0 = Some (arcQueue, h)
      \<longrightarrow> subseq (h r) (h0 r) \<and> mset (h r) \<subseteq># mset (h0 r))
   \<and> (ac3 truthy csp h0 = Inr (b, h')
      \<longrightarrow> subseq (h' r) (h0 r) \<and> mset (h' r) \<subseteq># mset (h0 r))"
  using steps_subseq[of n truthy csp "makeArcsSymmetric (arcs csp)" h0 arcQueue h r]
    loop_subseq[of truthy csp "makeArcsSymmetric (arcs csp)" h0 b h' r]
  by (auto simp: ac3_def dest: subseq_mset_subset)

theorem ac3_domains_only_shrink_witness:
  "\<exists>arcQueue h b h'.
     ac3_steps 1 truthy_num csp_less (makeArcsSymmetric (arcs csp_less)) store_less
       = Some (arcQueue, h)
     \<and> h 0 = [1, 2] \<and> store_less 0 = [1, 2, 3]
     \<and> subseq (h 0) (store_less 0) \<and> mset (h 0) \<subseteq># mset (store_less 0)
     \<and> ac3 truthy_num csp_less store_less = Inr (b, h')
     \<and> h' 1 = [2, 3] \<and> store_less 1 = [1, 2, 3]
     \<and> subseq (h' 1) (store_less 1) \<and> mset (h' 1) \<subseteq># mset (store_less 1)"
proof -
  have s: "ac3_steps 1 truthy_num csp_less (makeArcsSymmetric (arcs csp_less)) store_less
      = Some ([\<lparr>relation = (''Y'', ''X''), constraint = (\<lambda>x y. y < x)\<rparr>], store_less(0 := [1, 2]))"
    by (simp add: run_defs csp_less_def arc_less_def store_less_def)
  have r: "ac3 truthy_num csp_less store_less = Inr (True, store_less(1 := [2, 3], 0 := [1, 2]))"
    by (simp add: run_defs csp_less_def arc_less_def store_less_def)
  have v: "store_less 0 = [1, 2, 3]" "store_less 1 = [1, 2, 3]"
    by (simp_all add: store_less_def)
  from ac3_domains_only_shrink[of 1 truthy_num csp_less store_less
      "[\<lparr>relation = (''Y'', ''X''), constraint = (\<lambda>x y. y < x)\<rparr>]" "store_less(0 := [1, 2])" 0]
    s
  have a: "subseq ((store_less(0 := [1, 2])) 0) (store_less 0)
      \<and> mset ((store_less(0 := [1, 2])) 0) \<subseteq># mset (store_less 0)"
    by blast
  from ac3_domains_only_shrink[of 1 truthy_num csp_less store_less _ _ 1 True
      "store_less(1 := [2, 3], 0 := [1, 2])"] r
  have b: "subseq ((store_less(1 := [2, 3], 0 := [1, 2])) 1) (store_less 1)
      \<and> mset ((store_less(1 := [2, 3], 0 := [1, 2])) 1) \<subseteq># mset (store_less 1)"
    by blast
  show ?thesis
    apply (rule exI[of _ "[\<lparr>relation = (''Y'', ''X''), constraint = (\<lambda>x y. y < x)\<rparr>]"])
    apply (rule exI[of _ "store_less(0 := [1, 2])"])
    apply (rule exI[of _ True])
    apply (rule exI[of _ "store_less(1 := [2, 3], 0 := [1, 2])"])
    using s r v a b by simp
qed

text \<open>
  C8. The claim: \<open>revise\<close> on the arc \<open>(P, R, c)\<close> leaves the domain of \<open>R\<close> and of every
  other variable unchanged. It fails where the domain of \<open>R\<close> is the array of \<open>P\<close>:
  for the arc \<open>(A, A, x < y)\<close> with \<open>A = [1, 2]\<close>, where \<open>R\<close> is \<open>P\<close>, and for the arc
  \<open>(A, B, x < y)\<close> where the entries of \<open>A\<close> and \<open>B\<close> are one array \<open>[1, 2]\<close>. In
  both, the domain of the respect variable is \<open>[1, 2]\<close> before the call and \<open>[1]\<close>
  after it.
\<close>

theorem revise_changes_respect_domain:
  "(case revise truthy_num arc_self csp_self store_pair of
      Inr (b, h') \<Rightarrow>
        snd (relation arc_self) = ''A'' \<and>
        domain_of csp_self store_pair ''A'' = Some [1, 2] \<and> domain_of csp_self h' ''A'' = Some [1]
    | Inl e \<Rightarrow> False) \<and>
   (case revise truthy_num arc_shared csp_shared store_pair of
      Inr (b, h') \<Rightarrow>
        relation arc_shared = (''A'', ''B'') \<and>
        domain_of csp_shared store_pair ''B'' = Some [1, 2]
        \<and> domain_of csp_shared h' ''B'' = Some [1]
    | Inl e \<Rightarrow> False)"
  by (simp add: run_defs csp_self_def arc_self_def csp_shared_def arc_shared_def store_pair_def)

text \<open>
  C8, amended. \<open>revise\<close> writes to one array only, the one that is the domain of \<open>P\<close>:
  every other array keeps its contents, so every variable whose entry in \<open>csp.domains\<close>
  is not that array (\<open>R\<close> too, unless \<open>R\<close> is \<open>P\<close> or shares its array) has the same
  domain after the call. Nothing is stated here about \<open>csp.variables\<close> and
  \<open>csp.arcs\<close>: they are arrays too, and one that a caller also enters as the domain of
  \<open>P\<close> is rewritten with it.
\<close>

theorem revise_frame:
  assumes "revise truthy arc csp h = Inr (b, h')"
  shows "(\<forall>r. Some r \<noteq> domains csp (fst (relation arc)) \<longrightarrow> h' r = h r)
       \<and> (\<forall>v. domains csp v \<noteq> domains csp (fst (relation arc))
              \<longrightarrow> domain_of csp h' v = domain_of csp h v)"
proof -
  from revise_result[OF assms] obtain pd K where
    pd: "domains csp (fst (relation arc)) = Some pd" and h': "h' = h(pd := filter K (h pd))"
    by blast
  have 1: "\<forall>r. Some r \<noteq> domains csp (fst (relation arc)) \<longrightarrow> h' r = h r"
    using pd h' by auto
  have 2: "\<forall>v. domains csp v \<noteq> domains csp (fst (relation arc))
              \<longrightarrow> domain_of csp h' v = domain_of csp h v"
    using pd h' by (auto simp: domain_of_def map_option_case split: option.splits)
  from 1 2 show ?thesis by blast
qed

theorem revise_frame_witness:
  "\<exists>h'. revise truthy_num arc_less csp_less store_less = Inr (True, h')
     \<and> domains csp_less ''Y'' \<noteq> domains csp_less (fst (relation arc_less))
     \<and> domain_of csp_less h' ''X'' = Some [1, 2]
     \<and> h' 1 = store_less 1
     \<and> domain_of csp_less h' ''Y'' = domain_of csp_less store_less ''Y''"
proof -
  have r: "revise truthy_num arc_less csp_less store_less = Inr (True, store_less(0 := [1, 2]))"
    by (simp add: run_defs csp_less_def arc_less_def store_less_def)
  have d: "domains csp_less ''Y'' \<noteq> domains csp_less (fst (relation arc_less))"
      "Some 1 \<noteq> domains csp_less (fst (relation arc_less))"
    by (simp_all add: csp_less_def arc_less_def)
  have x: "domain_of csp_less (store_less(0 := [1, 2])) ''X'' = Some [1, 2]"
    by (simp add: domain_of_def csp_less_def)
  from revise_frame[OF r] d
  have "(store_less(0 := [1, 2])) 1 = store_less 1"
    and "domain_of csp_less (store_less(0 := [1, 2])) ''Y'' = domain_of csp_less store_less ''Y''"
    by blast+
  with r d x show ?thesis by blast
qed

text \<open>
  C9. \<open>ac3\<close> terminates: \<open>ac3_loop\<close> is a total function, by the order that
  \<open>body_decreases\<close> states (an arc is appended only by a pass that shortened an array,
  arrays are finite and never grow, and a pass that shortens nothing shortens the queue).
  On a CSP whose arcs all have domain entries the run ends by returning a boolean, not by
  a TypeError.
\<close>

theorem ac3_terminates:
  assumes "wellformed csp"
  shows "\<exists>b h'. ac3 truthy csp h = Inr (b, h')"
  using loop_returns[OF initial_queue_has_entries[OF assms]] by (simp add: ac3_def)

theorem ac3_terminates_witness:
  "wellformed csp_less \<and> (\<exists>b h'. ac3 truthy_num csp_less store_less = Inr (b, h'))"
  using ac3_terminates[of csp_less truthy_num store_less]
  by (simp add: wellformed_def has_entries_def csp_less_def arc_less_def)

text \<open>
  C10. On a CSP with no arcs \<open>ac3\<close> returns true and leaves the store, hence every
  domain, as it was, also when some domain is empty.
\<close>

theorem ac3_no_arcs:
  assumes "arcs csp = []"
  shows "ac3 truthy csp h = Inr (True, h)"
  using assms by (simp add: ac3_def makeArcsSymmetric_def)

theorem ac3_no_arcs_witness:
  "arcs csp_no_arcs = [] \<and> domain_of csp_no_arcs store_no_arcs ''A'' = Some []
   \<and> ac3 truthy_num csp_no_arcs store_no_arcs = Inr (True, store_no_arcs)"
  using ac3_no_arcs[of csp_no_arcs truthy_num store_no_arcs]
  by (simp add: csp_no_arcs_def store_no_arcs_def domain_of_def)

end
